theory Spec2Isabelle
  imports Complex_Main "HOL-Library.AList" "HOL-Library.Multiset"
begin

section \<open>Timestamps\<close>

text \<open>
  The sources are \<^verbatim>\<open>ParserPost.py\<close>, \<^verbatim>\<open>parser_events.py\<close> and
  \<^verbatim>\<open>parsers_bridge.py\<close>.

  An aware Python \<^verbatim>\<open>datetime\<close> is an instant together with the offset of its
  \<^verbatim>\<open>tzinfo\<close>. Both are counted in microseconds, the resolution of \<^verbatim>\<open>datetime\<close>.
  Two aware datetimes compare by instant; \<^verbatim>\<open>isoformat()\<close> prints the local time and
  the offset, so it distinguishes two datetimes exactly when the instant or the offset
  differs. The limits of the type (years 1 and 9999) are outside the model: instants are
  unbounded integers.
\<close>

record datetime =
  instant :: int
  utcoffset :: int

definition HOUR :: int where
  "HOUR = 3600000000"

definition MINUTE :: int where
  "MINUTE = 60000000"

definition SECOND :: int where
  "SECOND = 1000000"

text \<open>\<^verbatim>\<open>ts + timedelta(hours=h)\<close>: the instant moves, the offset stays.\<close>

definition plus_hours :: "datetime \<Rightarrow> int \<Rightarrow> datetime" where
  "plus_hours ts h = ts\<lparr>instant := instant ts + h * HOUR\<rparr>"

text \<open>
  The text of a timestamp field, as far as the code can tell texts apart: it reads such a
  text only through \<^verbatim>\<open>_parse_ts\<close>, with or without a \<^verbatim>\<open>strip()\<close> before it.
  \<open>Iso d\<close> is a text that \<^verbatim>\<open>datetime.fromisoformat\<close> reads as \<open>d\<close> (a naive
  result is given the offset 0 by \<^verbatim>\<open>_parse_ts\<close>); \<open>Padded d\<close> is such a text with
  white space around it, which parses only once stripped; \<open>Garbage\<close> is any other text,
  the empty one of a missing key included.
\<close>

datatype ts_text = Iso datetime | Padded datetime | Garbage

fun strip_ts :: "ts_text \<Rightarrow> ts_text" where
  "strip_ts (Padded d) = Iso d"
| "strip_ts t = t"

fun parse_ts :: "ts_text \<Rightarrow> datetime option" where
  "parse_ts (Iso d) = Some d"
| "parse_ts (Padded d) = None"
| "parse_ts Garbage = None"

definition isoformat :: "datetime \<Rightarrow> ts_text" where
  "isoformat d = Iso d"

section \<open>Metric points and timelines\<close>

datatype metric = Views | Likes | Comments | Repost | Shared

definition TRACK_METRICS :: "metric list" where
  "TRACK_METRICS = [Views, Likes, Comments, Repost, Shared]"

text \<open>
  A JSON value in a metric field. \<^verbatim>\<open>isinstance(value, int)\<close> holds for integers and
  for booleans; \<open>POther\<close> stands for every other value (text, float, list, dict).
  A missing key reads as \<open>PNone\<close>, as \<^verbatim>\<open>dict.get\<close> gives it.

  A point is a dict with the key \<^verbatim>\<open>ts_utc\<close> and the five metrics; \<open>ts_utc\<close> is the
  text \<^verbatim>\<open>str(point.get("ts_utc", ""))\<close>. A timeline is a list of points, the
  \<^verbatim>\<open>list[dict]\<close> of the annotations of \<^verbatim>\<open>_value_at_time\<close> and
  \<^verbatim>\<open>_compute_hourly_metric\<close>: an entry that is not a dict, which
  \<^verbatim>\<open>_normalize_timeline\<close> skips and at which \<^verbatim>\<open>_value_at_time\<close> raises, is not
  represented, and neither are keys of a point other than these six, which
  \<^verbatim>\<open>_normalize_timeline\<close> drops.
\<close>

datatype pyval = PNone | PBool bool | PInt int | POther

record point =
  ts_utc :: ts_text
  views :: pyval
  likes :: pyval
  comments :: pyval
  repost :: pyval
  shared :: pyval

fun get_metric :: "point \<Rightarrow> metric \<Rightarrow> pyval" where
  "get_metric p Views = views p"
| "get_metric p Likes = likes p"
| "get_metric p Comments = comments p"
| "get_metric p Repost = repost p"
| "get_metric p Shared = shared p"

text \<open>
  \<^verbatim>\<open>_metric_value\<close>: the value when it is an \<^verbatim>\<open>int\<close>, else \<^verbatim>\<open>None\<close>. The callers
  only subtract the result, so a boolean is given as the integer it counts as.
\<close>

fun int_value :: "pyval \<Rightarrow> int option" where
  "int_value (PInt n) = Some n"
| "int_value (PBool b) = Some (if b then 1 else 0)"
| "int_value PNone = None"
| "int_value POther = None"

definition metric_value :: "point \<Rightarrow> metric \<Rightarrow> int option" where
  "metric_value p m = int_value (get_metric p m)"

text \<open>
  \<^verbatim>\<open>_value_at_time\<close>: the scan stops at the first point whose text does not parse or
  whose time is after the target; \<open>val\<close> is the loop's variable \<^verbatim>\<open>value\<close>.
\<close>

fun value_at_time_loop :: "int option \<Rightarrow> point list \<Rightarrow> datetime \<Rightarrow> metric \<Rightarrow> int option" where
  "value_at_time_loop val [] target_ts m = val"
| "value_at_time_loop val (p # rest) target_ts m =
     (case parse_ts (ts_utc p) of
        None \<Rightarrow> val
      | Some ts \<Rightarrow>
          if instant ts > instant target_ts then val
          else value_at_time_loop
                 (case metric_value p m of None \<Rightarrow> val | Some current \<Rightarrow> Some current)
                 rest target_ts m)"

definition value_at_time :: "point list \<Rightarrow> datetime \<Rightarrow> metric \<Rightarrow> int option" where
  "value_at_time timeline target_ts m = value_at_time_loop None timeline target_ts m"

text \<open>
  \<^verbatim>\<open>_format_hour_range\<close> prints the two ends as hour and minute in Moscow time
  (UTC+3); the row keeps the four numbers instead of the text.
\<close>

definition MSK_OFFSET :: int where
  "MSK_OFFSET = 3 * HOUR"

definition hhmm_msk :: "datetime \<Rightarrow> nat \<times> nat" where
  "hhmm_msk ts =
     (let local = instant ts + MSK_OFFSET
      in (nat ((local div HOUR) mod 24), nat ((local div MINUTE) mod 60)))"

definition format_hour_range :: "datetime \<Rightarrow> datetime \<Rightarrow> (nat \<times> nat) \<times> (nat \<times> nat)" where
  "format_hour_range start_ts end_ts = (hhmm_msk start_ts, hhmm_msk end_ts)"

record row =
  hour :: nat
  range :: "(nat \<times> nat) \<times> (nat \<times> nat)"
  delta :: int

text \<open>
  \<^verbatim>\<open>_compute_hourly_metric\<close>: the loop over \<^verbatim>\<open>range(1, 25)\<close>, with
  \<^verbatim>\<open>prev_value\<close> carried from one hour to the next.
\<close>

fun hourly_rows :: "point list \<Rightarrow> datetime \<Rightarrow> metric \<Rightarrow> int \<Rightarrow> nat list \<Rightarrow> row list" where
  "hourly_rows timeline start_ts m prev_value [] = []"
| "hourly_rows timeline start_ts m prev_value (h # hs) =
     (let end_ts = plus_hours start_ts (int h);
          val = (case value_at_time timeline end_ts m of None \<Rightarrow> prev_value | Some v \<Rightarrow> v)
      in \<lparr>hour = h,
          range = format_hour_range (plus_hours end_ts (- 1)) end_ts,
          delta = val - prev_value\<rparr>
         # hourly_rows timeline start_ts m val hs)"

definition compute_hourly_metric :: "point list \<Rightarrow> datetime \<Rightarrow> metric \<Rightarrow> row list" where
  "compute_hourly_metric timeline start_ts m =
     (let base = (case value_at_time timeline start_ts m of None \<Rightarrow> 0 | Some v \<Rightarrow> v)
      in hourly_rows timeline start_ts m base [1..<25])"

text \<open>
  \<^verbatim>\<open>_normalize_timeline\<close>. The dict \<^verbatim>\<open>bucket\<close> is an association list in insertion
  order: assigning to a key that is there replaces the value in place, a new key goes to
  the end, which is what \<open>AList.update\<close> does. \<^verbatim>\<open>sorted\<close> is stable, as
  \<open>sort_key\<close> is; the key is the parsed time, or \<^verbatim>\<open>datetime.min\<close> in UTC.
  The guard \<^verbatim>\<open>isinstance(raw_timeline, list)\<close> is with the callers, which have
  the field of the tracking dict.
\<close>

fun keep_int :: "pyval \<Rightarrow> pyval" where
  "keep_int (PInt n) = PInt n"
| "keep_int (PBool b) = PBool b"
| "keep_int PNone = PNone"
| "keep_int POther = PNone"

definition normalize_point :: "datetime \<Rightarrow> point \<Rightarrow> point" where
  "normalize_point ts entry =
     \<lparr>ts_utc = isoformat ts,
      views = keep_int (views entry),
      likes = keep_int (likes entry),
      comments = keep_int (comments entry),
      repost = keep_int (repost entry),
      shared = keep_int (shared entry)\<rparr>"

fun fill_bucket :: "(ts_text \<times> point) list \<Rightarrow> point list \<Rightarrow> (ts_text \<times> point) list" where
  "fill_bucket bucket [] = bucket"
| "fill_bucket bucket (entry # rest) =
     (case parse_ts (strip_ts (ts_utc entry)) of
        None \<Rightarrow> fill_bucket bucket rest
      | Some ts \<Rightarrow>
          (let p = normalize_point ts entry
           in fill_bucket (AList.update (ts_utc p) p bucket) rest))"

definition DATETIME_MIN :: int where
  "DATETIME_MIN = - 62135596800000000"

definition order_key :: "point \<Rightarrow> int" where
  "order_key p = (case parse_ts (ts_utc p) of Some ts \<Rightarrow> instant ts | None \<Rightarrow> DATETIME_MIN)"

definition normalize_timeline :: "point list \<Rightarrow> point list" where
  "normalize_timeline raw_timeline = sort_key order_key (map snd (fill_bucket [] raw_timeline))"

section \<open>Tracking windows\<close>

text \<open>
  A key of a JSON dict whose value the code checks with \<^verbatim>\<open>isinstance\<close>: the key is
  missing, or it holds a value of another type, or a value of the type the code wants.
\<close>

datatype 'a field = Missing | Malformed | Present 'a

record history =
  start_ts_utc :: ts_text
  ready_hours :: int
  finalized :: bool
  updated_at_utc :: ts_text
  metrics :: "(metric \<times> row list) list"
  completed_at_utc :: "ts_text option"

text \<open>
  The value under \<^verbatim>\<open>history_24h\<close> when it is a dict: the empty dict, which
  \<^verbatim>\<open>_merge_tracking\<close> puts in the place of a missing history and which is false as a
  condition, or a history as \<^verbatim>\<open>_update_history_24h\<close> writes it.
\<close>

datatype hist_dict = EmptyDict | History history

text \<open>
  A tracking dict. \<open>started_at_utc\<close> is the text \<^verbatim>\<open>str(tracking.get("started_at_utc", ""))\<close>,
  so a missing key is \<open>Garbage\<close>.
\<close>

record tracking =
  started_at_utc :: ts_text
  timeline :: "point list field"
  history_24h :: "hist_dict field"

definition empty_tracking :: tracking where
  "empty_tracking = \<lparr>started_at_utc = Garbage, timeline = Missing, history_24h = Missing\<rparr>"

text \<open>
  \<^verbatim>\<open>_normalize_tracking\<close>; the argument \<open>None\<close> is a value that is not a dict.
  The guard \<^verbatim>\<open>isinstance(raw_timeline, list)\<close> of \<^verbatim>\<open>_normalize_timeline\<close> is the
  case distinction on the field. \<^verbatim>\<open>json.loads(json.dumps(history))\<close> copies the
  history.
\<close>

definition normalize_tracking :: "tracking option \<Rightarrow> tracking" where
  "normalize_tracking raw_tracking =
     (let tracking = (case raw_tracking of Some t \<Rightarrow> t | None \<Rightarrow> empty_tracking);
          tline = (case timeline tracking of Present raw \<Rightarrow> normalize_timeline raw | _ \<Rightarrow> [])
      in \<lparr>started_at_utc =
            (case parse_ts (started_at_utc tracking) of
               Some started_dt \<Rightarrow> isoformat started_dt
             | None \<Rightarrow> Garbage),
          timeline = (if tline \<noteq> [] then Present tline else Missing),
          history_24h = (case history_24h tracking of Present h \<Rightarrow> Present h | _ \<Rightarrow> Missing)\<rparr>)"

text \<open>
  \<^verbatim>\<open>_tracking_rank\<close>. The first component is \<^verbatim>\<open>started.timestamp()\<close> or
  \<^verbatim>\<open>float("inf")\<close>: \<open>None\<close> is the infinity. The instant stands for the float of
  seconds that \<^verbatim>\<open>timestamp()\<close> returns. Python compares the tuples lexicographically.
\<close>

type_synonym rank = "int option \<times> int \<times> int"

definition tracking_rank :: "tracking \<Rightarrow> rank" where
  "tracking_rank tracking =
     (let started = parse_ts (started_at_utc tracking);
          start_rank = map_option instant started;
          timeline_len = (case timeline tracking of Present tline \<Rightarrow> int (length tline) | _ \<Rightarrow> 0);
          fin = (case history_24h tracking of
                   Present (History h) \<Rightarrow> (if finalized h then 1 else 0)
                 | _ \<Rightarrow> 0)
      in (start_rank, - fin, - timeline_len))"

fun start_rank_less :: "int option \<Rightarrow> int option \<Rightarrow> bool" where
  "start_rank_less (Some a) (Some b) = (a < b)"
| "start_rank_less (Some a) None = True"
| "start_rank_less None b = False"

fun rank_less :: "rank \<Rightarrow> rank \<Rightarrow> bool" where
  "rank_less (a1, b1, c1) (a2, b2, c2) =
     (if a1 \<noteq> a2 then start_rank_less a1 a2
      else if b1 \<noteq> b2 then b1 < b2
      else c1 < c2)"

text \<open>\<^verbatim>\<open>min\<close> of a list of datetimes keeps the first of the least ones.\<close>

fun min_datetime :: "datetime \<Rightarrow> datetime list \<Rightarrow> datetime" where
  "min_datetime best [] = best"
| "min_datetime best (d # ds) = min_datetime (if instant d < instant best then d else best) ds"

text \<open>
  \<^verbatim>\<open>_merge_tracking\<close>. The two dicts given to \<^verbatim>\<open>_tracking_rank\<close> are built with the
  keys \<^verbatim>\<open>history_24h\<close> and \<^verbatim>\<open>timeline\<close> only.
\<close>

definition merge_tracking :: "tracking option \<Rightarrow> tracking option \<Rightarrow> tracking" where
  "merge_tracking base_tracking extra_tracking =
     (let base = normalize_tracking base_tracking;
          extra = normalize_tracking extra_tracking;
          started_candidates =
            List.map_filter parse_ts [started_at_utc base, started_at_utc extra];
          started_dt = (case started_candidates of
                          [] \<Rightarrow> None
                        | d # ds \<Rightarrow> Some (min_datetime d ds));
          tline = normalize_timeline
                 ((case timeline base of Present ps \<Rightarrow> ps | _ \<Rightarrow> [])
                  @ (case timeline extra of Present ps \<Rightarrow> ps | _ \<Rightarrow> []));
          base_hist = (case history_24h base of Present h \<Rightarrow> h | _ \<Rightarrow> EmptyDict);
          extra_hist = (case history_24h extra of Present h \<Rightarrow> h | _ \<Rightarrow> EmptyDict);
          extra_rank = tracking_rank
            \<lparr>started_at_utc = Garbage,
             timeline = (case timeline extra of Missing \<Rightarrow> Present [] | f \<Rightarrow> f),
             history_24h = Present extra_hist\<rparr>;
          base_rank = tracking_rank
            \<lparr>started_at_utc = Garbage,
             timeline = (case timeline base of Missing \<Rightarrow> Present [] | f \<Rightarrow> f),
             history_24h = Present base_hist\<rparr>;
          best_hist = (if rank_less extra_rank base_rank then extra_hist else base_hist)
      in \<lparr>started_at_utc = (case started_dt of Some d \<Rightarrow> isoformat d | None \<Rightarrow> Garbage),
          timeline = (if tline \<noteq> [] then Present tline else Missing),
          history_24h = (if best_hist \<noteq> EmptyDict then Present best_hist else Missing)\<rparr>)"

text \<open>
  \<^verbatim>\<open>_update_history_24h\<close>. The source computes
  \<^verbatim>\<open>int((now_ts - started_dt).total_seconds() // 3600)\<close> on floats and clamps the result
  to 0..24; on the microseconds of the difference this is the integer floor division
  below: for a difference of up to 25 hours the float of the seconds is off by far less
  than a microsecond, so that it lies in the same hour, and any other difference is
  clamped whatever its rounding. The argument \<open>now_ts\<close> is an aware datetime, as the
  caller passes it. The dict \<^verbatim>\<open>metrics\<close> is the list of its items in the order of
  \<^verbatim>\<open>TRACK_METRICS\<close>.
\<close>

definition clamp_hours :: "int \<Rightarrow> int" where
  "clamp_hours h = (let h1 = (if h < 0 then 0 else h) in if h1 > 24 then 24 else h1)"

definition update_history_24h :: "tracking \<Rightarrow> datetime \<Rightarrow> tracking" where
  "update_history_24h tracking now_ts =
     (case parse_ts (started_at_utc tracking) of
        None \<Rightarrow> tracking
      | Some started_dt \<Rightarrow>
          (case (case timeline tracking of Missing \<Rightarrow> Present [] | f \<Rightarrow> f) of
             Present tline \<Rightarrow>
               (let rh = clamp_hours ((instant now_ts - instant started_dt) div HOUR);
                    ms = map (\<lambda>m. (m, take (nat rh) (compute_hourly_metric tline started_dt m)))
                           TRACK_METRICS;
                    h = \<lparr>start_ts_utc = isoformat started_dt,
                         ready_hours = rh,
                         finalized = (rh \<ge> 24),
                         updated_at_utc = isoformat now_ts,
                         metrics = ms,
                         completed_at_utc =
                           (if rh \<ge> 24 then Some (isoformat (plus_hours started_dt 24))
                            else None)\<rparr>
                in tracking\<lparr>history_24h := Present (History h)\<rparr>)
           | _ \<Rightarrow> tracking))"

section \<open>Texts\<close>

text \<open>
  A Python \<^verbatim>\<open>str\<close> is the list of its code points; \<open>py\<close> gives the \<^verbatim>\<open>str\<close> of
  a literal of the source. \<^verbatim>\<open>str.strip()\<close> removes from both ends the characters for
  which \<^verbatim>\<open>str.isspace\<close> holds: the code points 9 to 13, 28 to 32, 133, 160, 5760,
  8192 to 8202, 8232, 8233, 8239, 8287 and 12288. A text that the code only returns or
  passes on (a reason, a command) stays a \<open>string\<close>.
\<close>

type_synonym pystr = "nat list"

definition py :: "string \<Rightarrow> pystr" where
  "py s = map of_char s"

definition is_space :: "nat \<Rightarrow> bool" where
  "is_space c =
     (c \<in> {9, 10, 11, 12, 13, 28, 29, 30, 31, 32, 133, 160, 5760, 8232, 8233, 8239, 8287, 12288}
      \<or> (8192 \<le> c \<and> c \<le> 8202))"

definition strip :: "pystr \<Rightarrow> pystr" where
  "strip s = rev (dropWhile is_space (rev (dropWhile is_space s)))"

definition startswith :: "pystr \<Rightarrow> pystr \<Rightarrow> bool" where
  "startswith s pre = (take (length pre) s = pre)"

section \<open>The event queue of parser\_events.py\<close>

text \<open>
  A value of \<^verbatim>\<open>stats_by_url\<close> is a snapshot (a dict, here the list of its items) or
  a value that is not a dict.
\<close>

datatype stats_value = Snapshot "(pystr \<times> pyval) list" | NotADict

text \<open>
  An event: \<open>event_type\<close> is the text \<^verbatim>\<open>str(event.get("type", ""))\<close>; the dict under
  \<^verbatim>\<open>stats_by_url\<close> is the list of its items in their order.
\<close>

record event =
  event_type :: pystr
  stats_by_url :: "(pystr \<times> stats_value) list field"

datatype payload = NotAnEvent | Event event

text \<open>\<^verbatim>\<open>_normalize_stats_map\<close>, the loop over \<^verbatim>\<open>raw.items()\<close> first.\<close>

fun stats_loop ::
  "(pystr \<times> stats_value) list \<Rightarrow> (pystr \<times> stats_value) list \<Rightarrow> (pystr \<times> stats_value) list" where
  "stats_loop out [] = out"
| "stats_loop out ((k, v) # rest) =
     (let target = strip k
      in if target = [] then stats_loop out rest
         else (case v of
                 Snapshot s \<Rightarrow> stats_loop (AList.update target v out) rest
               | NotADict \<Rightarrow> stats_loop out rest))"

definition normalize_stats_map :: "(pystr \<times> stats_value) list field \<Rightarrow> (pystr \<times> stats_value) list" where
  "normalize_stats_map raw = (case raw of Present its \<Rightarrow> stats_loop [] its | _ \<Rightarrow> [])"

text \<open>
  \<^verbatim>\<open>asyncio.Queue(maxsize)\<close>, from the Python library: the pending items in order,
  \<^verbatim>\<open>full()\<close> false for every length when \<^verbatim>\<open>maxsize\<close> is not positive,
  \<^verbatim>\<open>put_nowait\<close> raising \<^verbatim>\<open>QueueFull\<close> when the queue is full and
  \<^verbatim>\<open>get_nowait\<close> raising \<^verbatim>\<open>QueueEmpty\<close> when it is empty.
\<close>

record queue =
  maxsize :: int
  pending :: "event list"

datatype queue_error = QueueFull | QueueEmpty

definition qsize :: "queue \<Rightarrow> nat" where
  "qsize q = length (pending q)"

definition full :: "queue \<Rightarrow> bool" where
  "full q = (if maxsize q \<le> 0 then False else int (qsize q) \<ge> maxsize q)"

definition put_nowait :: "queue \<Rightarrow> event \<Rightarrow> queue_error + queue" where
  "put_nowait q item = (if full q then Inl QueueFull else Inr (q\<lparr>pending := pending q @ [item]\<rparr>))"


text \<open>
  \<^verbatim>\<open>enqueue_parser_event\<close>, with the module's \<^verbatim>\<open>_EVENT_QUEUE\<close> passed in and
  returned.
\<close>

definition enqueue_parser_event :: "queue \<Rightarrow> payload \<Rightarrow> (bool \<times> string) \<times> queue" where
  "enqueue_parser_event q pl =
     (case pl of
        NotAnEvent \<Rightarrow> ((False, ''invalid_payload''), q)
      | Event ev \<Rightarrow>
          (let etype = strip (event_type ev)
           in if etype \<notin> {py ''accounts_stats_batch'', py ''posts_stats_batch''}
              then ((False, ''invalid_type''), q)
              else if normalize_stats_map (stats_by_url ev) = []
              then ((False, ''empty_stats''), q)
              else (case put_nowait q ev of
                      Inr q' \<Rightarrow> ((True, ''queued''), q')
                    | Inl err \<Rightarrow> ((False, ''queue_full''), q))))"

text \<open>A run of submissions, one call after the other, with no consumer step between them.\<close>

fun submit_all :: "queue \<Rightarrow> payload list \<Rightarrow> (bool \<times> string) list \<times> queue" where
  "submit_all q [] = ([], q)"
| "submit_all q (pl # rest) =
     (let (r, q1) = enqueue_parser_event q pl;
          (rs, q2) = submit_all q1 rest
      in (r # rs, q2))"

section \<open>The supervisor of parsers\_bridge.py\<close>


















text \<open>\<^verbatim>\<open>normalize_account\<close>.\<close>

definition normalize_account :: "pystr \<Rightarrow> pystr" where
  "normalize_account raw =
     (let v = strip raw
      in if v = [] then []
         else if startswith v (py ''http://'') \<or> startswith v (py ''https://'') then v
         else (let v1 = (if startswith v (py ''@'') then drop 1 v else v)
               in py ''https://www.threads.com/@'' @ v1))"

section \<open>Notions used in the statements and proofs\<close>

text \<open>
  A payload that \<^verbatim>\<open>enqueue_parser_event\<close> does not reject before it reaches the
  queue: a dict of a recognized type whose stats normalize to a map that is not empty.
\<close>

definition well_formed :: "payload \<Rightarrow> bool" where
  "well_formed pl =
     (case pl of
        NotAnEvent \<Rightarrow> False
      | Event ev \<Rightarrow>
          strip (event_type ev) \<in> {py ''accounts_stats_batch'', py ''posts_stats_batch''}
          \<and> normalize_stats_map (stats_by_url ev) \<noteq> [])"



text \<open>
  Two lists have the same ties under a key when, for every value of the key, the elements
  with that value come in the same order in both. A stable sort of one is then the stable
  sort of the other.
\<close>

definition same_ties :: "('a \<Rightarrow> int) \<Rightarrow> 'a list \<Rightarrow> 'a list \<Rightarrow> bool" where
  "same_ties f xs ys = (\<forall>k. filter (\<lambda>x. f x = k) xs = filter (\<lambda>x. f x = k) ys)"

text \<open>
  What assigning the items of \<open>c\<close>, in their order, does to the dict \<open>b\<close>: the keys of
  \<open>b\<close> keep their places and take the values of \<open>c\<close>, the new keys follow.
\<close>

definition overlay :: "('k \<times> 'v) list \<Rightarrow> ('k \<times> 'v) list \<Rightarrow> ('k \<times> 'v) list" where
  "overlay b c =
     map (\<lambda>e. (fst e, case map_of c (fst e) of Some q \<Rightarrow> q | None \<Rightarrow> snd e)) b
     @ filter (\<lambda>e. fst e \<notin> fst ` set b) c"

definition key_instant :: "ts_text \<Rightarrow> int" where
  "key_instant k = (case parse_ts k of Some ts \<Rightarrow> instant ts | None \<Rightarrow> DATETIME_MIN)"

definition entry_instant :: "ts_text \<times> point \<Rightarrow> int" where
  "entry_instant e = key_instant (fst e)"

text \<open>The items of \<^verbatim>\<open>bucket\<close>: each key is the text of its point, and the point is normalized.\<close>

definition well_keyed :: "(ts_text \<times> point) list \<Rightarrow> bool" where
  "well_keyed b =
     (\<forall>e \<in> set b. \<exists>ts. fst e = Iso ts \<and> ts_utc (snd e) = Iso ts
        \<and> normalize_point ts (snd e) = snd e)"

text \<open>The list under \<^verbatim>\<open>timeline\<close> of a raw tracking value, empty when there is none.\<close>

definition raw_points :: "tracking option \<Rightarrow> point list" where
  "raw_points raw =
     (case raw of
        Some t \<Rightarrow> (case timeline t of Present ps \<Rightarrow> ps | _ \<Rightarrow> [])
      | None \<Rightarrow> [])"

section \<open>Concrete inputs\<close>

definition utc :: "int \<Rightarrow> datetime" where
  "utc t = \<lparr>instant = t, utcoffset = 0\<rparr>"

definition views_point :: "int \<Rightarrow> int \<Rightarrow> point" where
  "views_point t n =
     \<lparr>ts_utc = Iso (utc t), views = PInt n, likes = PNone, comments = PNone,
      repost = PNone, shared = PNone\<rparr>"

text \<open>Two timelines with one point each, at the same time, with different views.\<close>

definition timeline_one :: "point list" where
  "timeline_one = [views_point 0 1]"

definition timeline_two :: "point list" where
  "timeline_two = [views_point 0 2]"

text \<open>The point of \<open>timeline_one\<close> with its time written at the offset of three hours.\<close>

definition timeline_msk :: "point list" where
  "timeline_msk =
     [\<lparr>ts_utc = Iso \<lparr>instant = 0, utcoffset = 3 * HOUR\<rparr>, views = PInt 1, likes = PNone,
       comments = PNone, repost = PNone, shared = PNone\<rparr>]"

text \<open>Two timelines that share the point at one hour.\<close>

definition timeline_early :: "point list" where
  "timeline_early = [views_point 0 1, views_point HOUR 7]"

definition timeline_late :: "point list" where
  "timeline_late = [views_point HOUR 7, views_point (2 * HOUR) 9]"

text \<open>The timeline with 10 views at the start, 20 after 70 minutes and 35 after 130 minutes.\<close>

definition timeline_hourly :: "point list" where
  "timeline_hourly = [views_point 0 10, views_point (70 * MINUTE) 20, views_point (130 * MINUTE) 35]"

definition fresh_tracking :: tracking where
  "fresh_tracking =
     \<lparr>started_at_utc = Iso (utc 0), timeline = Present timeline_hourly, history_24h = Missing\<rparr>"

text \<open>
  Two windows on one post: the first started at time 0 and was last updated two hours
  later; the second started an hour later and was updated after its 24 hours.
\<close>

definition early_open_window :: tracking where
  "early_open_window =
     update_history_24h
       \<lparr>started_at_utc = Iso (utc 0), timeline = Present [views_point 0 10],
        history_24h = Missing\<rparr>
       (utc (2 * HOUR))"

definition late_final_window :: tracking where
  "late_final_window =
     update_history_24h
       \<lparr>started_at_utc = Iso (utc HOUR), timeline = Present [views_point HOUR 12],
        history_24h = Missing\<rparr>
       (utc (26 * HOUR))"

definition empty_batch :: event where
  "empty_batch = \<lparr>event_type = py ''accounts_stats_batch'', stats_by_url = Present []\<rparr>"





section \<open>Lemmas\<close>

subsection \<open>Stable sorting and dicts in insertion order\<close>

lemma same_ties_refl: "same_ties f xs xs"
  by (simp add: same_ties_def)

lemma same_ties_mset:
  assumes "same_ties f xs ys"
  shows "mset xs = mset ys"
proof (rule multiset_eqI)
  fix x
  have "count (mset xs) x = count (mset (filter (\<lambda>y. f y = f x) xs)) x" by simp
  also have "\<dots> = count (mset (filter (\<lambda>y. f y = f x) ys)) x"
    using assms by (simp only: same_ties_def)
  also have "\<dots> = count (mset ys) x" by simp
  finally show "count (mset xs) x = count (mset ys) x" .
qed

lemma same_ties_set: "same_ties f xs ys \<Longrightarrow> set xs = set ys"
  by (metis same_ties_mset set_mset_mset)

lemma same_ties_sort:
  assumes "same_ties f xs ys"
  shows "sort_key f xs = sort_key f ys"
proof (rule properties_for_sort_key)
  show "mset (sort_key f ys) = mset xs" using same_ties_mset[OF assms] by simp
  show "sorted (map f (sort_key f ys))" by (rule sorted_sort_key)
  fix k
  have "filter (\<lambda>x. f x = f k) (sort_key f ys) = filter (\<lambda>x. f x = f k) ys"
    by (rule sort_key_stable)
  also have "\<dots> = filter (\<lambda>x. f x = f k) xs" using assms by (simp add: same_ties_def)
  finally show "filter (\<lambda>x. f k = f x) (sort_key f ys) = filter (\<lambda>x. f k = f x) xs"
    by (simp add: eq_commute)
qed

lemma same_ties_sorted: "same_ties f (sort_key f xs) xs"
  by (simp add: same_ties_def sort_key_stable)

lemma same_ties_append:
  "same_ties f a a' \<Longrightarrow> same_ties f b b' \<Longrightarrow> same_ties f (a @ b) (a' @ b')"
  by (simp add: same_ties_def)

lemma same_ties_filter: "same_ties f a a' \<Longrightarrow> same_ties f (filter P a) (filter P a')"
proof -
  assume a: "same_ties f a a'"
  have "filter (\<lambda>x. f x = k) (filter P a) = filter (\<lambda>x. f x = k) (filter P a')" for k
  proof -
    have "filter (\<lambda>x. f x = k) (filter P a) = filter P (filter (\<lambda>x. f x = k) a)"
      by (simp add: conj_commute)
    also have "\<dots> = filter P (filter (\<lambda>x. f x = k) a')" using a by (simp only: same_ties_def)
    also have "\<dots> = filter (\<lambda>x. f x = k) (filter P a')" by (simp add: conj_commute)
    finally show ?thesis .
  qed
  then show ?thesis unfolding same_ties_def by blast
qed

lemma same_ties_map:
  assumes "\<And>x. f (g x) = f x" "same_ties f a a'"
  shows "same_ties f (map g a) (map g a')"
proof -
  have "filter (\<lambda>x. f x = k) (map g b) = map g (filter (\<lambda>x. f x = k) b)" for k b
    by (simp add: filter_map comp_def assms(1))
  then show ?thesis using assms(2) by (simp add: same_ties_def)
qed

lemma update_append_in:
  "k \<in> fst ` set xs \<Longrightarrow> AList.update k v (xs @ ys) = AList.update k v xs @ ys"
  by (induction xs) auto

lemma update_append_out:
  "k \<notin> fst ` set xs \<Longrightarrow> AList.update k v (xs @ ys) = xs @ AList.update k v ys"
  by (induction xs) auto

lemma update_distinct_map:
  "distinct (map fst xs) \<Longrightarrow> k \<in> fst ` set xs \<Longrightarrow>
   AList.update k v xs = map (\<lambda>e. if fst e = k then (k, v) else e) xs"
  by (induction xs) (auto simp: rev_image_eqI intro!: map_idI[symmetric])

lemma filter_update_out:
  "\<not> P k \<Longrightarrow> filter (\<lambda>e. P (fst e)) (AList.update k v c) = filter (\<lambda>e. P (fst e)) c"
  by (induction c) auto

lemma filter_update_in:
  "P k \<Longrightarrow> filter (\<lambda>e. P (fst e)) (AList.update k v c) = AList.update k v (filter (\<lambda>e. P (fst e)) c)"
  by (induction c) auto

lemma update_overlay:
  assumes "distinct (map fst b)"
  shows "AList.update k v (overlay b c) = overlay b (AList.update k v c)"
proof (cases "k \<in> fst ` set b")
  case True
  let ?g = "\<lambda>c e. (fst e, case map_of c (fst e) of Some q \<Rightarrow> q | None \<Rightarrow> snd e)"
  have d: "distinct (map fst (map (?g c) b))" using assms by (simp add: comp_def)
  have k: "k \<in> fst ` set (map (?g c) b)" using True by (force simp: image_iff)
  have "AList.update k v (overlay b c) = AList.update k v (map (?g c) b) @ filter (\<lambda>e. fst e \<notin> fst ` set b) c"
    unfolding overlay_def using k by (rule update_append_in)
  also have "AList.update k v (map (?g c) b) = map (\<lambda>e. if fst e = k then (k, v) else e) (map (?g c) b)"
    using d k by (rule update_distinct_map)
  also have "\<dots> = map (?g (AList.update k v c)) b"
    by (simp add: update_conv')
  also have "filter (\<lambda>e. fst e \<notin> fst ` set b) c = filter (\<lambda>e. fst e \<notin> fst ` set b) (AList.update k v c)"
    using True by (simp add: filter_update_out[where P="\<lambda>k. k \<notin> fst ` set b"])
  finally show ?thesis by (simp add: overlay_def)
next
  case False
  let ?g = "\<lambda>c e. (fst e, case map_of c (fst e) of Some q \<Rightarrow> q | None \<Rightarrow> snd e)"
  have k: "k \<notin> fst ` set (map (?g c) b)" using False by (force simp: image_iff)
  have "AList.update k v (overlay b c) = map (?g c) b @ AList.update k v (filter (\<lambda>e. fst e \<notin> fst ` set b) c)"
    unfolding overlay_def using k by (rule update_append_out)
  also have "AList.update k v (filter (\<lambda>e. fst e \<notin> fst ` set b) c) = filter (\<lambda>e. fst e \<notin> fst ` set b) (AList.update k v c)"
    using False by (simp add: filter_update_in[where P="\<lambda>k. k \<notin> fst ` set b"])
  also have "map (?g c) b = map (?g (AList.update k v c)) b"
    using False by (auto simp: update_conv' image_iff)
  finally show ?thesis by (simp add: overlay_def)
qed

lemma overlay_Nil: "overlay b [] = b"
  by (simp add: overlay_def map_idI)

lemma insort_key_map: "insort_key f (g x) (map g xs) = map g (insort_key (\<lambda>a. f (g a)) x xs)"
  by (induction xs) auto

lemma sort_key_map: "sort_key f (map g xs) = map g (sort_key (\<lambda>a. f (g a)) xs)"
  by (induction xs) (simp_all add: insort_key_map)

lemma insort_key_agree:
  "f x = g x \<Longrightarrow> (\<And>y. y \<in> set xs \<Longrightarrow> f y = g y) \<Longrightarrow> insort_key f x xs = insort_key g x xs"
  by (induction xs) auto

lemma sort_key_agree:
  "(\<And>y. y \<in> set xs \<Longrightarrow> f y = g y) \<Longrightarrow> sort_key f xs = sort_key g xs"
proof (induction xs)
  case Nil
  show ?case by simp
next
  case (Cons x xs)
  then have "sort_key f xs = sort_key g xs" by simp
  moreover have "insort_key f x (sort_key g xs) = insort_key g x (sort_key g xs)"
    using Cons.prems by (intro insort_key_agree) simp_all
  ultimately show ?case by simp
qed

lemma fill_bucket_append: "fill_bucket b (xs @ ys) = fill_bucket (fill_bucket b xs) ys"
  by (induction xs arbitrary: b) (auto simp: Let_def split: option.splits)

lemma fill_bucket_snoc:
  "fill_bucket b (xs @ [x]) =
     (case parse_ts (strip_ts (ts_utc x)) of
        None \<Rightarrow> fill_bucket b xs
      | Some ts \<Rightarrow> AList.update (Iso ts) (normalize_point ts x) (fill_bucket b xs))"
  by (simp add: fill_bucket_append Let_def normalize_point_def isoformat_def split: option.splits)

lemma fill_bucket_distinct: "distinct (map fst b) \<Longrightarrow> distinct (map fst (fill_bucket b xs))"
  by (induction xs rule: rev_induct) (simp_all add: fill_bucket_snoc distinct_update split: option.splits)

lemma set_alist_update: "set (AList.update k v al) \<subseteq> insert (k, v) (set al)"
  by (induction al) auto

lemma keep_int_idem: "keep_int (keep_int v) = keep_int v"
  by (cases v) simp_all

lemma normalize_point_idem: "normalize_point ts (normalize_point ts e) = normalize_point ts e"
  by (simp add: normalize_point_def keep_int_idem)

lemma well_keyed_update:
  "well_keyed b \<Longrightarrow> well_keyed (AList.update (Iso ts) (normalize_point ts x) b)"
proof -
  assume w: "well_keyed b"
  have "\<exists>t. fst e = Iso t \<and> ts_utc (snd e) = Iso t \<and> normalize_point t (snd e) = snd e"
    if "e \<in> set (AList.update (Iso ts) (normalize_point ts x) b)" for e
  proof -
    from that set_alist_update have "e = (Iso ts, normalize_point ts x) \<or> e \<in> set b" by fastforce
    then show ?thesis
    proof
      assume "e = (Iso ts, normalize_point ts x)"
      then show ?thesis by (simp add: normalize_point_idem) (simp add: normalize_point_def isoformat_def)
    next
      assume "e \<in> set b"
      with w show ?thesis by (simp add: well_keyed_def)
    qed
  qed
  then show ?thesis unfolding well_keyed_def by blast
qed

lemma fill_bucket_well_keyed: "well_keyed b \<Longrightarrow> well_keyed (fill_bucket b xs)"
  by (induction xs rule: rev_induct) (simp_all add: fill_bucket_snoc well_keyed_update split: option.splits)

lemma well_keyed_Nil: "well_keyed []"
  by (simp add: well_keyed_def)

lemma fill_bucket_overlay:
  assumes "distinct (map fst b)"
  shows "fill_bucket b xs = overlay b (fill_bucket [] xs)"
proof (induction xs rule: rev_induct)
  case Nil
  show ?case by (simp add: overlay_Nil)
next
  case (snoc x xs)
  show ?case
  proof (cases "parse_ts (strip_ts (ts_utc x))")
    case None
    then show ?thesis using snoc by (simp add: fill_bucket_snoc)
  next
    case (Some ts)
    then show ?thesis using snoc by (simp add: fill_bucket_snoc update_overlay[OF assms])
  qed
qed

lemma well_keyed_order_key: "well_keyed b \<Longrightarrow> e \<in> set b \<Longrightarrow> order_key (snd e) = entry_instant e"
  by (auto simp: well_keyed_def order_key_def entry_instant_def key_instant_def)

lemma normalize_timeline_bucket:
  "normalize_timeline xs = map snd (sort_key entry_instant (fill_bucket [] xs))"
proof -
  have w: "well_keyed (fill_bucket [] xs)" by (simp add: fill_bucket_well_keyed well_keyed_Nil)
  have "normalize_timeline xs = map snd (sort_key (\<lambda>e. order_key (snd e)) (fill_bucket [] xs))"
    by (simp add: normalize_timeline_def sort_key_map)
  also have "sort_key (\<lambda>e. order_key (snd e)) (fill_bucket [] xs) = sort_key entry_instant (fill_bucket [] xs)"
    by (rule sort_key_agree) (rule well_keyed_order_key[OF w])
  finally show ?thesis .
qed

lemma update_fresh: "k \<notin> fst ` set b \<Longrightarrow> AList.update k v b = b @ [(k, v)]"
  by (induction b) auto

lemma refill:
  "well_keyed s \<Longrightarrow> distinct (map fst (b @ s)) \<Longrightarrow> fill_bucket b (map snd s) = b @ s"
proof (induction s arbitrary: b)
  case Nil
  show ?case by simp
next
  case (Cons e s)
  from Cons.prems(1) obtain ts where ts: "fst e = Iso ts" "ts_utc (snd e) = Iso ts"
      "normalize_point ts (snd e) = snd e"
    by (auto simp: well_keyed_def)
  from Cons.prems(1) have ws: "well_keyed s" by (simp add: well_keyed_def)
  from Cons.prems(2) have fresh: "fst e \<notin> fst ` set b" by auto
  have "fill_bucket b (map snd (e # s)) = fill_bucket (AList.update (fst e) (snd e) b) (map snd s)"
    using ts by (simp add: Let_def)
  also have "AList.update (fst e) (snd e) b = b @ [e]" using fresh by (simp add: update_fresh)
  also have "fill_bucket (b @ [e]) (map snd s) = (b @ [e]) @ s"
    using ws Cons.prems(2) by (intro Cons.IH) simp_all
  finally show ?case by simp
qed

lemma bucket_of_normalized:
  "fill_bucket [] (normalize_timeline xs) = sort_key entry_instant (fill_bucket [] xs)"
proof -
  let ?s = "sort_key entry_instant (fill_bucket [] xs)"
  have "well_keyed (fill_bucket [] xs)" by (simp add: fill_bucket_well_keyed well_keyed_Nil)
  then have w: "well_keyed ?s" by (simp add: well_keyed_def)
  have "distinct (map fst (fill_bucket [] xs))" by (simp add: fill_bucket_distinct)
  then have d: "distinct (map fst ?s)"
    by (metis distinct_map set_sort distinct_sort)
  show ?thesis using refill[OF w, of "[]"] d by (simp add: normalize_timeline_bucket)
qed

lemma overlay_left:
  assumes "same_ties entry_instant b b'"
  shows "same_ties entry_instant (overlay b c) (overlay b' c)"
proof -
  have s: "set b = set b'" using assms by (rule same_ties_set)
  let ?g = "\<lambda>e. (fst e, case map_of c (fst e) of Some q \<Rightarrow> q | None \<Rightarrow> snd e)"
  have "same_ties entry_instant (map ?g b) (map ?g b')"
    using assms by (intro same_ties_map) (simp_all add: entry_instant_def)
  then show ?thesis unfolding overlay_def s by (intro same_ties_append same_ties_refl)
qed

lemma overlay_right:
  assumes "same_ties entry_instant c c'" "map_of c = map_of c'"
  shows "same_ties entry_instant (overlay b c) (overlay b c')"
  unfolding overlay_def assms(2)
  by (intro same_ties_append same_ties_refl same_ties_filter assms(1))

lemma bucket_distinct_sorted:
  "distinct (map fst (sort_key entry_instant (fill_bucket [] xs)))"
  by (metis distinct_map set_sort distinct_sort fill_bucket_distinct distinct.simps(1) list.simps(8))

lemma normalize_absorb_left:
  "normalize_timeline (normalize_timeline xs @ cs) = normalize_timeline (xs @ cs)"
proof -
  let ?s = "sort_key entry_instant (fill_bucket [] xs)"
  have "fill_bucket [] (normalize_timeline xs @ cs) = overlay ?s (fill_bucket [] cs)"
    by (simp add: fill_bucket_append bucket_of_normalized fill_bucket_overlay[OF bucket_distinct_sorted])
  moreover have "fill_bucket [] (xs @ cs) = overlay (fill_bucket [] xs) (fill_bucket [] cs)"
    by (simp add: fill_bucket_append fill_bucket_overlay[of "fill_bucket [] xs"] fill_bucket_distinct)
  moreover have "same_ties entry_instant (overlay ?s (fill_bucket [] cs))
      (overlay (fill_bucket [] xs) (fill_bucket [] cs))"
    by (intro overlay_left same_ties_sorted)
  ultimately show ?thesis by (simp add: normalize_timeline_bucket same_ties_sort)
qed

lemma normalize_absorb_right:
  "normalize_timeline (xs @ normalize_timeline ys) = normalize_timeline (xs @ ys)"
proof -
  let ?s = "sort_key entry_instant (fill_bucket [] ys)"
  have d: "distinct (map fst (fill_bucket [] xs))" by (simp add: fill_bucket_distinct)
  have "fill_bucket [] (xs @ normalize_timeline ys) = overlay (fill_bucket [] xs) ?s"
    by (simp add: fill_bucket_append bucket_of_normalized fill_bucket_overlay[OF d])
  moreover have "fill_bucket [] (xs @ ys) = overlay (fill_bucket [] xs) (fill_bucket [] ys)"
    by (simp add: fill_bucket_append fill_bucket_overlay[OF d])
  moreover have "map_of ?s = map_of (fill_bucket [] ys)"
    using bucket_distinct_sorted[of ys] fill_bucket_distinct[of "[]" ys]
    by (subst map_of_inject_set) simp_all
  then have "same_ties entry_instant (overlay (fill_bucket [] xs) ?s)
      (overlay (fill_bucket [] xs) (fill_bucket [] ys))"
    by (intro overlay_right same_ties_sorted)
  ultimately show ?thesis by (simp add: normalize_timeline_bucket same_ties_sort)
qed

lemma overlay_self: "distinct (map fst b) \<Longrightarrow> overlay b b = b"
  by (auto simp: overlay_def intro!: map_idI)

lemma normalize_twice: "normalize_timeline (xs @ xs) = normalize_timeline xs"
proof -
  have d: "distinct (map fst (fill_bucket [] xs))" by (simp add: fill_bucket_distinct)
  have "fill_bucket [] (xs @ xs) = overlay (fill_bucket [] xs) (fill_bucket [] xs)"
    by (simp add: fill_bucket_append fill_bucket_overlay[OF d])
  then show ?thesis by (simp add: normalize_timeline_bucket overlay_self[OF d])
qed

lemma normalize_assoc:
  "normalize_timeline (normalize_timeline (a @ b) @ c) = normalize_timeline (a @ normalize_timeline (b @ c))"
  by (simp add: normalize_absorb_left normalize_absorb_right)

lemma overlay_compatible:
  assumes "distinct (map fst c)" "\<And>e e'. e \<in> set b \<Longrightarrow> e' \<in> set c \<Longrightarrow> fst e = fst e' \<Longrightarrow> e = e'"
  shows "overlay b c = b @ filter (\<lambda>e. fst e \<notin> fst ` set b) c"
proof -
  have "(fst e, case map_of c (fst e) of Some q \<Rightarrow> q | None \<Rightarrow> snd e) = e" if "e \<in> set b" for e
  proof (cases "map_of c (fst e)")
    case None
    then show ?thesis by simp
  next
    case (Some q)
    then have "(fst e, q) \<in> set c" by (rule map_of_SomeD)
    with assms(2)[OF that, of "(fst e, q)"] have "e = (fst e, q)" by simp
    with Some show ?thesis by simp
  qed
  then show ?thesis by (simp add: overlay_def map_idI)
qed

lemma distinct_all_same:
  assumes "distinct xs" "xs \<noteq> []" "\<And>x. x \<in> set xs \<Longrightarrow> x = y"
  shows "xs = [y]"
proof (cases xs)
  case Nil
  with assms(2) show ?thesis by simp
next
  case (Cons x rest)
  have "x = y" using assms(3) Cons by simp
  moreover have "rest = []"
  proof (cases rest)
    case Nil
    then show ?thesis .
  next
    case (Cons z zs)
    then have "z = y" using assms(3) \<open>xs = x # rest\<close> by simp
    with \<open>x = y\<close> assms(1) \<open>xs = x # rest\<close> Cons show ?thesis by simp
  qed
  ultimately show ?thesis using Cons by simp
qed

lemma overlay_commute:
  assumes db: "distinct (map fst b)" and dc: "distinct (map fst c)"
    and agree: "\<And>e e'. e \<in> set b \<Longrightarrow> e' \<in> set c \<Longrightarrow> entry_instant e = entry_instant e' \<Longrightarrow> e = e'"
  shows "same_ties entry_instant (overlay b c) (overlay c b)"
proof -
  have key: "e = e'" if "e \<in> set b" "e' \<in> set c" "fst e = fst e'" for e e'
    using agree[OF that(1,2)] that(3) by (simp add: entry_instant_def)
  have key': "e = e'" if "e \<in> set c" "e' \<in> set b" "fst e = fst e'" for e e'
    using key[OF that(2,1)] that(3) by simp
  have o1: "overlay b c = b @ filter (\<lambda>e. fst e \<notin> fst ` set b) c"
    using dc key by (rule overlay_compatible)
  have o2: "overlay c b = c @ filter (\<lambda>e. fst e \<notin> fst ` set c) b"
    using db key' by (rule overlay_compatible)
  have "filter (\<lambda>e. entry_instant e = i) (overlay b c) = filter (\<lambda>e. entry_instant e = i) (overlay c b)" for i
  proof -
    let ?P = "\<lambda>e. entry_instant e = i"
    let ?bi = "filter ?P b" and ?ci = "filter ?P c"
    have dbi: "distinct ?bi" using db by (simp add: distinct_map_filter distinct_map[THEN iffD1, THEN conjunct1])
    have dci: "distinct ?ci" using dc by (simp add: distinct_map_filter distinct_map[THEN iffD1, THEN conjunct1])
    have l: "filter ?P (overlay b c) = ?bi @ filter (\<lambda>e. fst e \<notin> fst ` set b) ?ci"
      by (simp add: o1 conj_commute)
    have r: "filter ?P (overlay c b) = ?ci @ filter (\<lambda>e. fst e \<notin> fst ` set c) ?bi"
      by (simp add: o2 conj_commute)
    have inst: "entry_instant e = entry_instant e'" if "fst e = fst e'" for e e' :: "ts_text \<times> point"
      using that by (simp add: entry_instant_def)
    show ?thesis
    proof (cases "?bi = []")
      case True
      have "fst e \<notin> fst ` set b" if "e \<in> set ?ci" for e
      proof
        assume "fst e \<in> fst ` set b"
        then obtain e' where e': "e' \<in> set b" "fst e' = fst e" by auto
        then have "entry_instant e' = i" using that inst[of e' e] by simp
        with e'(1) have "e' \<in> set ?bi" by simp
        with True show False by simp
      qed
      then have "filter (\<lambda>e. fst e \<notin> fst ` set b) ?ci = ?ci" by (intro filter_True) blast
      with True show ?thesis by (simp only: l r) simp
    next
      case bne: False
      show ?thesis
      proof (cases "?ci = []")
        case True
        have "fst e \<notin> fst ` set c" if "e \<in> set ?bi" for e
        proof
          assume "fst e \<in> fst ` set c"
          then obtain e' where e': "e' \<in> set c" "fst e' = fst e" by auto
          then have "entry_instant e' = i" using that inst[of e' e] by simp
          with e'(1) have "e' \<in> set ?ci" by simp
          with True show False by simp
        qed
        then have "filter (\<lambda>e. fst e \<notin> fst ` set c) ?bi = ?bi" by (intro filter_True) blast
        with True show ?thesis by (simp only: l r) simp
      next
        case cne: False
        then obtain y where y: "y \<in> set ?ci" by (cases ?ci) auto
        have "x = y" if "x \<in> set ?bi" for x using agree[of x y] that y by simp
        with dbi bne have bi: "?bi = [y]" by (intro distinct_all_same)
        then have yb: "y \<in> set ?bi" by simp
        have "x = y" if "x \<in> set ?ci" for x using agree[of y x] that yb by simp
        with dci cne have ci: "?ci = [y]" by (intro distinct_all_same)
        have "y \<in> set b" "y \<in> set c" using yb y by simp_all
        then show ?thesis by (simp only: l r bi ci) simp
      qed
    qed
  qed
  then show ?thesis unfolding same_ties_def by blast
qed

lemma normalize_commute:
  assumes "\<And>p q. p \<in> set (normalize_timeline a) \<Longrightarrow> q \<in> set (normalize_timeline b) \<Longrightarrow>
             order_key p = order_key q \<Longrightarrow> p = q"
  shows "normalize_timeline (a @ b) = normalize_timeline (b @ a)"
proof -
  let ?a = "fill_bucket [] a" and ?b = "fill_bucket [] b"
  have da: "distinct (map fst ?a)" and db: "distinct (map fst ?b)" by (simp_all add: fill_bucket_distinct)
  have wa: "well_keyed ?a" and wb: "well_keyed ?b" by (simp_all add: fill_bucket_well_keyed well_keyed_Nil)
  have agree: "e = e'" if "e \<in> set ?a" "e' \<in> set ?b" "entry_instant e = entry_instant e'" for e e'
  proof -
    have "snd e \<in> set (normalize_timeline a)" "snd e' \<in> set (normalize_timeline b)"
      using that by (simp_all add: normalize_timeline_bucket)
    moreover have "order_key (snd e) = order_key (snd e')"
      using that well_keyed_order_key[OF wa that(1)] well_keyed_order_key[OF wb that(2)] by simp
    ultimately have "snd e = snd e'" by (rule assms)
    moreover have "fst e = ts_utc (snd e)" "fst e' = ts_utc (snd e')"
      using wa wb that by (auto simp: well_keyed_def)
    ultimately show ?thesis by (simp add: prod_eq_iff)
  qed
  have "fill_bucket [] (a @ b) = overlay ?a ?b" "fill_bucket [] (b @ a) = overlay ?b ?a"
    by (simp_all add: fill_bucket_append fill_bucket_overlay[OF da] fill_bucket_overlay[OF db])
  moreover have "same_ties entry_instant (overlay ?a ?b) (overlay ?b ?a)"
    using da db agree by (rule overlay_commute)
  ultimately show ?thesis by (simp add: normalize_timeline_bucket same_ties_sort)
qed

text \<open>
  Which points a merge holds: all those of the second timeline, and those of the first
  whose timestamp text the second does not hold.
\<close>

lemma set_normalize_timeline: "set (normalize_timeline xs) = snd ` set (fill_bucket [] xs)"
  by (simp add: normalize_timeline_def)

lemma well_keyed_fst: "well_keyed b \<Longrightarrow> e \<in> set b \<Longrightarrow> ts_utc (snd e) = fst e"
  by (auto simp: well_keyed_def)

lemma set_overlay:
  assumes "distinct (map fst c)"
  shows "set (overlay b c) = set c \<union> {e \<in> set b. fst e \<notin> fst ` set c}"
proof -
  have m: "map_of c k = Some q \<longleftrightarrow> (k, q) \<in> set c" for k q
    using assms by simp
  have n: "map_of c k = None \<longleftrightarrow> k \<notin> fst ` set c" for k
    by (simp add: map_of_eq_None_iff)
  show ?thesis
  proof (rule set_eqI)
    fix x :: "'a \<times> 'b"
    obtain k v where x: "x = (k, v)" by (cases x)
    show "x \<in> set (overlay b c) \<longleftrightarrow> x \<in> set c \<union> {e \<in> set b. fst e \<notin> fst ` set c}"
    proof
      assume "x \<in> set (overlay b c)"
      then consider e where "e \<in> set b" "x = (fst e, case map_of c (fst e) of Some q \<Rightarrow> q | None \<Rightarrow> snd e)"
        | "x \<in> set c"
        by (auto simp: overlay_def)
      then show "x \<in> set c \<union> {e \<in> set b. fst e \<notin> fst ` set c}"
      proof cases
        case 1
        show ?thesis
        proof (cases "map_of c (fst e)")
          case None
          then have "x = e" using 1(2) by simp
          moreover have "fst e \<notin> fst ` set c" using None n by simp
          ultimately show ?thesis using 1(1) by simp
        next
          case (Some q)
          then have "x = (fst e, q)" using 1(2) by simp
          then show ?thesis using Some m by simp
        qed
      next
        case 2
        then show ?thesis by simp
      qed
    next
      assume "x \<in> set c \<union> {e \<in> set b. fst e \<notin> fst ` set c}"
      then consider "x \<in> set c" | "x \<in> set b" "fst x \<notin> fst ` set c" by auto
      then show "x \<in> set (overlay b c)"
      proof cases
        case 1
        show ?thesis
        proof (cases "k \<in> fst ` set b")
          case True
          then obtain e where e: "e \<in> set b" "fst e = k" by auto
          have "map_of c k = Some v" using 1 x m by simp
          then have "(fst e, case map_of c (fst e) of Some q \<Rightarrow> q | None \<Rightarrow> snd e) = x"
            using e x by simp
          then show ?thesis using e(1) by (force simp: overlay_def)
        next
          case False
          then show ?thesis using 1 x by (simp add: overlay_def)
        qed
      next
        case 2
        then have "map_of c (fst x) = None" using n by simp
        then have "(fst x, case map_of c (fst x) of Some q \<Rightarrow> q | None \<Rightarrow> snd x) = x" by simp
        then show ?thesis using 2(1) by (force simp: overlay_def)
      qed
    qed
  qed
qed

lemma normalize_second_wins:
  "set (normalize_timeline (A @ B)) =
     set (normalize_timeline B)
     \<union> {p \<in> set (normalize_timeline A). ts_utc p \<notin> ts_utc ` set (normalize_timeline B)}"
proof -
  let ?a = "fill_bucket [] A" and ?b = "fill_bucket [] B"
  have da: "distinct (map fst ?a)" and db: "distinct (map fst ?b)" by (simp_all add: fill_bucket_distinct)
  have wa: "well_keyed ?a" and wb: "well_keyed ?b" by (simp_all add: fill_bucket_well_keyed well_keyed_Nil)
  have ab: "fill_bucket [] (A @ B) = overlay ?a ?b"
    by (simp add: fill_bucket_append fill_bucket_overlay[OF da])
  have keys: "ts_utc ` snd ` set ?b = fst ` set ?b"
    using well_keyed_fst[OF wb] by (force simp: image_iff)
  have "snd ` {e \<in> set ?a. fst e \<notin> fst ` set ?b} = {p \<in> snd ` set ?a. ts_utc p \<notin> fst ` set ?b}"
    using well_keyed_fst[OF wa] by (force simp: image_iff)
  then show ?thesis
    by (simp add: set_normalize_timeline ab set_overlay[OF db] image_Un keys)
qed

subsection \<open>What \<^verbatim>\<open>_merge_tracking\<close> returns\<close>

text \<open>
  The timeline of a merged tracking is the normalization of the two raw timelines put
  one after the other: normalizing each of them first changes nothing.
\<close>

lemma normalize_timeline_Nil: "normalize_timeline [] = []"
  by (simp add: normalize_timeline_def)

lemma normalized_points:
  "(case timeline (normalize_tracking raw) of Present ps \<Rightarrow> ps | _ \<Rightarrow> [])
     = normalize_timeline (raw_points raw)"
  by (auto simp: normalize_tracking_def raw_points_def empty_tracking_def Let_def
      normalize_timeline_Nil split: option.splits field.splits)

lemma merge_tracking_timeline:
  "timeline (merge_tracking a b) =
     (if normalize_timeline (raw_points a @ raw_points b) \<noteq> []
      then Present (normalize_timeline (raw_points a @ raw_points b)) else Missing)"
proof -
  have "normalize_timeline
          ((case timeline (normalize_tracking a) of Present ps \<Rightarrow> ps | _ \<Rightarrow> [])
           @ (case timeline (normalize_tracking b) of Present ps \<Rightarrow> ps | _ \<Rightarrow> []))
        = normalize_timeline (raw_points a @ raw_points b)"
    by (simp only: normalized_points normalize_absorb_left normalize_absorb_right)
  then show ?thesis
    by (simp add: merge_tracking_def Let_def)
qed

text \<open>The start of a merged tracking is the earliest of the starts that parse.\<close>

lemma merge_tracking_start:
  "started_at_utc (merge_tracking (Some a) (Some b)) =
     (case (parse_ts (started_at_utc a), parse_ts (started_at_utc b)) of
        (Some da, Some db) \<Rightarrow> Iso (if instant db < instant da then db else da)
      | (Some da, None) \<Rightarrow> Iso da
      | (None, Some db) \<Rightarrow> Iso db
      | (None, None) \<Rightarrow> Garbage)"
  by (simp add: merge_tracking_def normalize_tracking_def Let_def isoformat_def
      List.map_filter_def split: option.splits)

subsection \<open>Hours of a window\<close>

lemma clamp_hours_mono: "a \<le> b \<Longrightarrow> clamp_hours a \<le> clamp_hours b"
  by (simp add: clamp_hours_def Let_def)

lemma clamp_hours_range: "0 \<le> clamp_hours a \<and> clamp_hours a \<le> 24"
  by (simp add: clamp_hours_def Let_def)

lemma update_history_written:
  assumes "parse_ts (started_at_utc tr) = Some started_dt" "timeline tr \<noteq> Malformed"
  shows "\<exists>h. history_24h (update_history_24h tr now_ts) = Present (History h)
     \<and> ready_hours h = clamp_hours ((instant now_ts - instant started_dt) div HOUR)"
  using assms by (cases "timeline tr") (simp_all add: update_history_24h_def Let_def)

lemma ready_after_24h:
  "instant now_ts \<ge> instant started_dt + 24 * HOUR \<Longrightarrow>
   clamp_hours ((instant now_ts - instant started_dt) div HOUR) = 24"
proof -
  assume a: "instant now_ts \<ge> instant started_dt + 24 * HOUR"
  have "24 * HOUR div HOUR \<le> (instant now_ts - instant started_dt) div HOUR"
    using a by (intro zdiv_mono1) (simp_all add: HOUR_def)
  then have "24 \<le> (instant now_ts - instant started_dt) div HOUR" by (simp add: HOUR_def)
  then show ?thesis by (simp add: clamp_hours_def Let_def)
qed

subsection \<open>Stripped texts\<close>

lemma strip_fix:
  assumes "s \<noteq> []" "\<not> is_space (hd s)" "\<not> is_space (last s)"
  shows "strip s = s"
proof -
  from assms have 1: "dropWhile is_space s = s" by (cases s) auto
  from assms have "rev s \<noteq> []" "\<not> is_space (hd (rev s))" by (auto simp: hd_rev)
  then have 2: "dropWhile is_space (rev s) = rev s" by (cases "rev s") auto
  show ?thesis by (simp add: strip_def 1 2)
qed

lemma strip_ends:
  assumes "strip s \<noteq> []"
  shows "\<not> is_space (hd (strip s))" "\<not> is_space (last (strip s))"
proof -
  let ?a = "dropWhile is_space s"
  let ?b = "dropWhile is_space (rev ?a)"
  from assms have b: "?b \<noteq> []" by (simp add: strip_def)
  then have hb: "\<not> is_space (hd ?b)" by (rule hd_dropWhile)
  have a: "?a \<noteq> []"
  proof
    assume e: "?a = []"
    have "?b = []" unfolding e by simp
    with b show False by blast
  qed
  then have ha: "\<not> is_space (hd ?a)" by (rule hd_dropWhile)
  have "last (strip s) = hd ?b" using b by (simp add: strip_def last_rev)
  then show "\<not> is_space (last (strip s))" using hb by simp
  have "rev ?a = takeWhile is_space (rev ?a) @ ?b" by simp
  then have "?a = rev ?b @ rev (takeWhile is_space (rev ?a))"
    by (metis rev_append rev_rev_ident)
  then have "hd ?a = hd (rev ?b)" using b by (metis hd_append2 rev_is_Nil_conv)
  then show "\<not> is_space (hd (strip s))" using ha by (simp add: strip_def)
qed

lemma strip_idem: "strip (strip s) = strip s"
proof (cases "strip s = []")
  case True
  have "strip [] = []" by (simp add: strip_def)
  with True show ?thesis by simp
next
  case False then show ?thesis using strip_ends[OF False] by (intro strip_fix)
qed

lemma normalize_account_shape:
  "(normalize_account s = [] \<longleftrightarrow> strip s = [])
   \<and> (strip s \<noteq> [] \<longrightarrow> startswith (normalize_account s) (py ''http://'') \<or> startswith (normalize_account s) (py ''https://''))"
  by (auto simp: normalize_account_def Let_def startswith_def py_def)

lemma not_space_h: "\<not> is_space (of_char CHR ''h'')"
  by (simp add: is_space_def)

lemma not_space_at: "\<not> is_space (of_char CHR ''@'')"
  by (simp add: is_space_def)

lemma normalize_account_stripped: "strip (normalize_account s) = normalize_account s"
proof (cases "strip s = []")
  case True
  have "strip [] = []" by (simp add: strip_def)
  with True show ?thesis by (simp add: normalize_account_def)
next
  case False
  note ends = strip_ends[OF False]
  show ?thesis
  proof (cases "startswith (strip s) (py ''http://'') \<or> startswith (strip s) (py ''https://'')")
    case True
    with False have "normalize_account s = strip s" by (auto simp: normalize_account_def Let_def)
    then show ?thesis by (simp add: strip_idem)
  next
    case nh: False
    define v1 where "v1 = (if startswith (strip s) (py ''@'') then drop 1 (strip s) else strip s)"
    have r: "normalize_account s = py ''https://www.threads.com/@'' @ v1"
      using False nh by (simp add: normalize_account_def Let_def v1_def)
    have "last (py ''https://www.threads.com/@'' @ v1) = (if v1 = [] then of_char CHR ''@'' else last v1)"
      by (simp add: py_def)
    moreover have "v1 \<noteq> [] \<Longrightarrow> last v1 = last (strip s)"
      by (auto simp: v1_def split: if_splits)
    ultimately have "\<not> is_space (last (normalize_account s))"
      using ends(2) not_space_at by (simp add: r)
    moreover have "\<not> is_space (hd (normalize_account s))"
      using not_space_h by (simp add: r py_def)
    moreover have "normalize_account s \<noteq> []"
      by (simp add: r py_def)
    ultimately show ?thesis by (intro strip_fix)
  qed
qed

lemma normalize_account_idem: "normalize_account (normalize_account s) = normalize_account s"
proof (cases "strip s = []")
  case True
  have "strip [] = []" by (simp add: strip_def)
  with True show ?thesis by (simp add: normalize_account_def)
next
  case False
  with normalize_account_shape[of s]
  have "startswith (normalize_account s) (py ''http://'') \<or> startswith (normalize_account s) (py ''https://'')"
    and "normalize_account s \<noteq> []" by auto
  then show ?thesis
    by (subst (1) normalize_account_def) (simp add: normalize_account_stripped Let_def)
qed

subsection \<open>The hours of a day\<close>

lemma hours_of_day:
  "[Suc 0..<25] = [1, 2, 3, 4, 5, 6, 7, 8, 9, 10, 11, 12, 13, 14, 15, 16, 17, 18, 19, 20, 21, 22, 23, 24]"
  by (simp add: upt_rec)

subsection \<open>Submissions to a full queue\<close>




lemma enqueue_unbounded:
  assumes "maxsize q \<le> 0" "well_formed (Event ev)"
  shows "enqueue_parser_event q (Event ev) = ((True, ''queued''), q\<lparr>pending := pending q @ [ev]\<rparr>)"
  using assms
  by (auto simp: enqueue_parser_event_def well_formed_def put_nowait_def full_def Let_def)

lemma submit_all_unbounded:
  assumes "maxsize q \<le> 0" "\<forall>ev \<in> set evs. well_formed (Event ev)"
  shows "submit_all q (map Event evs)
    = (replicate (length evs) (True, ''queued''), q\<lparr>pending := pending q @ evs\<rparr>)"
  using assms
proof (induction evs arbitrary: q)
  case Nil
  then show ?case by simp
next
  case (Cons ev evs)
  let ?q = "q\<lparr>pending := pending q @ [ev]\<rparr>"
  have "enqueue_parser_event q (Event ev) = ((True, ''queued''), ?q)"
    using Cons.prems by (simp add: enqueue_unbounded)
  moreover have "submit_all ?q (map Event evs)
    = (replicate (length evs) (True, ''queued''), ?q\<lparr>pending := pending ?q @ evs\<rparr>)"
    using Cons.prems by (intro Cons.IH) simp_all
  ultimately show ?case by simp
qed

lemma strip_plain:
  "strip (py ''accounts_stats_batch'') = py ''accounts_stats_batch''"
  "strip (py ''posts_stats_batch'') = py ''posts_stats_batch''"
  "strip (py ''https://www.threads.com/@a/post/1'') = py ''https://www.threads.com/@a/post/1''"
  "py ''https://www.threads.com/@a/post/1'' \<noteq> []"
  by (simp_all add: strip_def is_space_def py_def)

subsection \<open>Two texts of one instant\<close>

text \<open>
  Two points at the same instant whose timestamps are written at different offsets are two
  keys of the dict; the stable sort leaves them in the order of the arguments.
\<close>

lemma merge_keeps_order_of_equal_instants:
  "normalize_timeline (timeline_one @ timeline_msk) = timeline_one @ timeline_msk
   \<and> normalize_timeline (timeline_msk @ timeline_one) = timeline_msk @ timeline_one
   \<and> timeline_one @ timeline_msk \<noteq> timeline_msk @ timeline_one"
  by (simp add: normalize_timeline_def timeline_one_def timeline_msk_def views_point_def utc_def
      normalize_point_def isoformat_def order_key_def HOUR_def Let_def)

section \<open>The claims\<close>

subsection \<open>Merging timelines\<close>

text \<open>
  C1, as amended. Merging two timelines is \<^verbatim>\<open>_normalize_timeline\<close> of their concatenation.
  For all timelines \<open>A\<close>, \<open>B\<close>, \<open>C\<close> the merge is associative, and merging a timeline
  with itself gives its normalization. It is commutative whenever a point of the
  normalized \<open>A\<close> and a point of the normalized \<open>B\<close> that stand at the same instant are
  the same point, with the same timestamp text and the same metric values. For a
  timestamp that both timelines hold the last write wins: the merge holds every point of
  the normalized \<open>B\<close>, and a point of the normalized \<open>A\<close> exactly when the normalized
  \<open>B\<close> has no point with its timestamp text, so where the values differ the merge takes
  those of its second argument.
\<close>

theorem normalize_merge_laws:
  "normalize_timeline (normalize_timeline (A @ B) @ C)
     = normalize_timeline (A @ normalize_timeline (B @ C))
   \<and> normalize_timeline (A @ A) = normalize_timeline A
   \<and> ((\<forall>p \<in> set (normalize_timeline A). \<forall>q \<in> set (normalize_timeline B).
          order_key p = order_key q \<longrightarrow> p = q)
        \<longrightarrow> normalize_timeline (A @ B) = normalize_timeline (B @ A))
   \<and> set (normalize_timeline (A @ B))
       = set (normalize_timeline B)
         \<union> {p \<in> set (normalize_timeline A). ts_utc p \<notin> ts_utc ` set (normalize_timeline B)}"
proof (intro conjI impI)
  show "normalize_timeline (normalize_timeline (A @ B) @ C)
     = normalize_timeline (A @ normalize_timeline (B @ C))"
    by (rule normalize_assoc)
  show "normalize_timeline (A @ A) = normalize_timeline A"
    by (rule normalize_twice)
  show "set (normalize_timeline (A @ B))
       = set (normalize_timeline B)
         \<union> {p \<in> set (normalize_timeline A). ts_utc p \<notin> ts_utc ` set (normalize_timeline B)}"
    by (rule normalize_second_wins)
  assume "\<forall>p \<in> set (normalize_timeline A). \<forall>q \<in> set (normalize_timeline B).
          order_key p = order_key q \<longrightarrow> p = q"
  then show "normalize_timeline (A @ B) = normalize_timeline (B @ A)"
    by (intro normalize_commute) blast
qed

text \<open>
  The laws at two timelines that share the point at one hour, and a third one; and the
  merge of two timelines that hold one timestamp with different views, which has the
  points of the second.
\<close>

theorem normalize_merge_laws_witness:
  "normalize_timeline (timeline_early @ timeline_late)
       = normalize_timeline (timeline_late @ timeline_early)
   \<and> normalize_timeline (normalize_timeline (timeline_early @ timeline_late) @ timeline_two)
       = normalize_timeline (timeline_early @ normalize_timeline (timeline_late @ timeline_two))
   \<and> normalize_timeline (timeline_early @ timeline_early) = normalize_timeline timeline_early
   \<and> set (normalize_timeline (timeline_one @ timeline_two)) = set (normalize_timeline timeline_two)"
proof -
  have agree: "\<forall>p \<in> set (normalize_timeline timeline_early). \<forall>q \<in> set (normalize_timeline timeline_late).
      order_key p = order_key q \<longrightarrow> p = q"
    by (simp add: normalize_timeline_def timeline_early_def timeline_late_def views_point_def
        utc_def normalize_point_def isoformat_def order_key_def HOUR_def Let_def)
  have held: "{p \<in> set (normalize_timeline timeline_one).
      ts_utc p \<notin> ts_utc ` set (normalize_timeline timeline_two)} = {}"
    by (simp add: normalize_timeline_def timeline_one_def timeline_two_def views_point_def
        utc_def normalize_point_def isoformat_def Let_def)
  have "set (normalize_timeline (timeline_one @ timeline_two)) = set (normalize_timeline timeline_two)"
    using normalize_merge_laws[of timeline_one timeline_two timeline_two] held by simp
  with agree normalize_merge_laws[of timeline_early timeline_late timeline_two] show ?thesis
    by blast
qed

text \<open>
  C1 as stated fails: two timelines with a point at the same time and different views
  merge to the views of the second argument.
\<close>

theorem merge_not_commutative:
  "normalize_timeline (timeline_one @ timeline_two)
     \<noteq> normalize_timeline (timeline_two @ timeline_one)"
  by (simp add: normalize_timeline_def timeline_one_def timeline_two_def views_point_def utc_def
      normalize_point_def isoformat_def Let_def)

subsection \<open>The 24 hour history\<close>

text \<open>
  C2, as amended. For every tracking record whose start time \<open>start\<close> parses and whose
  timeline is a list or is missing, \<^verbatim>\<open>_update_history_24h\<close> with
  \<open>now = start + 24h + 1s\<close> writes a history with \<open>ready_hours = 24\<close>,
  \<open>finalized\<close> true and \<open>completed_at_utc = start + 24h\<close>. A second call with a
  later \<open>now\<close> computes the history again: it leaves every field as it is but
  \<open>updated_at_utc\<close>, which becomes the later \<open>now\<close>.
\<close>

theorem finalized_after_24h:
  assumes st: "parse_ts (started_at_utc tr) = Some started_dt"
    and tl: "timeline tr \<noteq> Malformed"
    and now: "instant now_ts = instant started_dt + 24 * HOUR + SECOND"
    and later: "instant now_ts < instant later_ts"
  shows "\<exists>h. history_24h (update_history_24h tr now_ts) = Present (History h)
          \<and> ready_hours h = 24 \<and> finalized h
          \<and> completed_at_utc h = Some (isoformat (plus_hours started_dt 24))
          \<and> update_history_24h (update_history_24h tr now_ts) later_ts =
              (update_history_24h tr now_ts)
                \<lparr>history_24h := Present (History (h\<lparr>updated_at_utc := isoformat later_ts\<rparr>))\<rparr>"
proof -
  have r1: "clamp_hours ((instant now_ts - instant started_dt) div HOUR) = 24"
    using now by (intro ready_after_24h) (simp add: SECOND_def)
  have r2: "clamp_hours ((instant later_ts - instant started_dt) div HOUR) = 24"
    using now later by (intro ready_after_24h) (simp add: SECOND_def)
  show ?thesis using st tl r1 r2
    by (cases "timeline tr") (simp_all add: update_history_24h_def Let_def)
qed

theorem finalized_after_24h_witness:
  "parse_ts (started_at_utc fresh_tracking) = Some (utc 0)
   \<and> timeline fresh_tracking \<noteq> Malformed
   \<and> instant (utc (24 * HOUR + SECOND)) < instant (utc (25 * HOUR))
   \<and> (\<exists>h. history_24h (update_history_24h fresh_tracking (utc (24 * HOUR + SECOND)))
             = Present (History h)
          \<and> ready_hours h = 24 \<and> finalized h
          \<and> completed_at_utc h = Some (isoformat (plus_hours (utc 0) 24))
          \<and> update_history_24h (update_history_24h fresh_tracking (utc (24 * HOUR + SECOND)))
               (utc (25 * HOUR)) =
              (update_history_24h fresh_tracking (utc (24 * HOUR + SECOND)))
                \<lparr>history_24h :=
                   Present (History (h\<lparr>updated_at_utc := isoformat (utc (25 * HOUR))\<rparr>))\<rparr>)"
proof -
  have a: "parse_ts (started_at_utc fresh_tracking) = Some (utc 0)"
    by (simp add: fresh_tracking_def)
  have b: "timeline fresh_tracking \<noteq> Malformed"
    by (simp add: fresh_tracking_def)
  have c: "instant (utc (24 * HOUR + SECOND)) = instant (utc 0) + 24 * HOUR + SECOND"
    by (simp add: utc_def)
  have d: "instant (utc (24 * HOUR + SECOND)) < instant (utc (25 * HOUR))"
    by (simp add: utc_def HOUR_def SECOND_def)
  from finalized_after_24h[OF a b c d] a b d show ?thesis by blast
qed

text \<open>
  C2 as stated fails: the second call, an hour later, changes the window (its
  \<open>updated_at_utc\<close>).
\<close>

theorem second_update_changes_window:
  "update_history_24h (update_history_24h fresh_tracking (utc (24 * HOUR + SECOND))) (utc (25 * HOUR))
     \<noteq> update_history_24h fresh_tracking (utc (24 * HOUR + SECOND))"
  by (simp add: fresh_tracking_def update_history_24h_def Let_def clamp_hours_def HOUR_def
      SECOND_def utc_def isoformat_def)

text \<open>
  C3, as amended. For a timeline holding, for some metric, the points \<open>(t0, 10)\<close>,
  \<open>(t0 + 70min, 20)\<close> and \<open>(t0 + 130min, 35)\<close>, and the tracking start \<open>t0\<close>, the
  hourly computation yields the delta 0 for bucket 1, 10 for bucket 2 and 15 for
  bucket 3 of that metric: the value of an hour is the last one at or before its end, and
  the first hour ends ten minutes before the second point.
\<close>

theorem hourly_deltas_example:
  assumes "parse_ts (ts_utc p0) = Some d0"
    and "parse_ts (ts_utc p1) = Some d1"
    and "parse_ts (ts_utc p2) = Some d2"
    and "instant d0 = instant start_ts"
    and "instant d1 = instant start_ts + 70 * MINUTE"
    and "instant d2 = instant start_ts + 130 * MINUTE"
    and "get_metric p0 m = PInt 10"
    and "get_metric p1 m = PInt 20"
    and "get_metric p2 m = PInt 35"
  shows "map delta (take 3 (compute_hourly_metric [p0, p1, p2] start_ts m)) = [0, 10, 15]"
  using assms
  by (simp add: compute_hourly_metric_def hours_of_day value_at_time_def metric_value_def
      plus_hours_def HOUR_def MINUTE_def Let_def)

theorem hourly_deltas_example_witness:
  "map delta (take 3 (compute_hourly_metric timeline_hourly (utc 0) Views)) = [0, 10, 15]"
  using hourly_deltas_example[of "views_point 0 10" "utc 0" "views_point (70 * MINUTE) 20"
      "utc (70 * MINUTE)" "views_point (130 * MINUTE) 35" "utc (130 * MINUTE)" "utc 0" Views]
  by (simp add: timeline_hourly_def views_point_def utc_def)

text \<open>C3 as stated fails: the deltas of the first two buckets are not 10 and 15.\<close>

theorem hourly_deltas_not_10_15:
  "map delta (take 2 (compute_hourly_metric timeline_hourly (utc 0) Views)) \<noteq> [10, 15]"
  by (simp add: compute_hourly_metric_def hours_of_day value_at_time_def metric_value_def
      plus_hours_def HOUR_def MINUTE_def Let_def timeline_hourly_def views_point_def utc_def)

text \<open>
  C9. For every tracking window whose start time parses and whose timeline is a list or
  is missing, \<^verbatim>\<open>_update_history_24h\<close> writes a history at every \<open>now\<close>, and the
  \<open>ready_hours\<close> it writes at a later \<open>now\<close> is at least the one it writes at an
  earlier \<open>now\<close> and at most 24.
\<close>

theorem ready_hours_monotone:
  assumes "parse_ts (started_at_utc tr) = Some started_dt"
    and "timeline tr \<noteq> Malformed"
    and "instant now1 \<le> instant now2"
  shows "\<exists>h1 h2. history_24h (update_history_24h tr now1) = Present (History h1)
          \<and> history_24h (update_history_24h tr now2) = Present (History h2)
          \<and> ready_hours h1 \<le> ready_hours h2 \<and> ready_hours h2 \<le> 24"
proof -
  from update_history_written[OF assms(1,2)] obtain h1 where
    h1: "history_24h (update_history_24h tr now1) = Present (History h1)"
        "ready_hours h1 = clamp_hours ((instant now1 - instant started_dt) div HOUR)"
    by blast
  from update_history_written[OF assms(1,2)] obtain h2 where
    h2: "history_24h (update_history_24h tr now2) = Present (History h2)"
        "ready_hours h2 = clamp_hours ((instant now2 - instant started_dt) div HOUR)"
    by blast
  have "(instant now1 - instant started_dt) div HOUR \<le> (instant now2 - instant started_dt) div HOUR"
    using assms(3) by (intro zdiv_mono1) (simp_all add: HOUR_def)
  then have "ready_hours h1 \<le> ready_hours h2"
    by (simp add: h1 h2 clamp_hours_mono)
  moreover have "ready_hours h2 \<le> 24"
    using clamp_hours_range by (simp add: h2)
  ultimately show ?thesis
    using h1(1) h2(1) by blast
qed

theorem ready_hours_monotone_witness:
  "parse_ts (started_at_utc fresh_tracking) = Some (utc 0)
   \<and> timeline fresh_tracking \<noteq> Malformed
   \<and> instant (utc (2 * HOUR)) \<le> instant (utc (30 * HOUR))
   \<and> (\<exists>h1 h2. history_24h (update_history_24h fresh_tracking (utc (2 * HOUR)))
                 = Present (History h1)
          \<and> history_24h (update_history_24h fresh_tracking (utc (30 * HOUR)))
                 = Present (History h2)
          \<and> ready_hours h1 \<le> ready_hours h2 \<and> ready_hours h2 \<le> 24)"
proof -
  have a: "parse_ts (started_at_utc fresh_tracking) = Some (utc 0)"
    by (simp add: fresh_tracking_def)
  have b: "timeline fresh_tracking \<noteq> Malformed"
    by (simp add: fresh_tracking_def)
  have c: "instant (utc (2 * HOUR)) \<le> instant (utc (30 * HOUR))"
    by (simp add: utc_def HOUR_def)
  from ready_hours_monotone[OF a b c] a b c show ?thesis by blast
qed

subsection \<open>Reconciling two windows\<close>

text \<open>
  C8. The claim ranks two windows by start time first. \<^verbatim>\<open>_merge_tracking\<close> gives
  \<^verbatim>\<open>_tracking_rank\<close> dicts without the key \<^verbatim>\<open>started_at_utc\<close>, so the start never
  decides: here the first window started an hour before the second and ranks below it,
  the merged start is the earlier one, and yet the merged history is the history of the
  second window, the finalized one.
\<close>

theorem merge_ranks_without_start:
  "rank_less (tracking_rank early_open_window) (tracking_rank late_final_window)
   \<and> started_at_utc (merge_tracking (Some early_open_window) (Some late_final_window))
       = started_at_utc early_open_window
   \<and> history_24h (merge_tracking (Some early_open_window) (Some late_final_window))
       = history_24h late_final_window
   \<and> history_24h late_final_window \<noteq> history_24h early_open_window"
  by (simp add: early_open_window_def late_final_window_def update_history_24h_def Let_def
      clamp_hours_def HOUR_def utc_def merge_tracking_def normalize_tracking_def tracking_rank_def
      normalize_timeline_def views_point_def normalize_point_def isoformat_def
      List.map_filter_def)

subsection \<open>The event queue\<close>

text \<open>
  C6. For every submitted event whose type is a recognized batch type and whose
  \<^verbatim>\<open>stats_by_url\<close> normalizes to an empty map, \<^verbatim>\<open>enqueue_parser_event\<close> returns the
  rejection \<^verbatim>\<open>empty_stats\<close> and leaves the queue as it is.
\<close>

theorem empty_stats_rejected:
  assumes "strip (event_type ev) \<in> {py ''accounts_stats_batch'', py ''posts_stats_batch''}"
    and "normalize_stats_map (stats_by_url ev) = []"
  shows "enqueue_parser_event q (Event ev) = ((False, ''empty_stats''), q)"
  using assms by (simp add: enqueue_parser_event_def Let_def)

text \<open>The event \<^verbatim>\<open>{type: "accounts_stats_batch", stats_by_url: {}}\<close> at an empty queue of size 200.\<close>

theorem empty_stats_rejected_witness:
  "strip (event_type empty_batch) \<in> {py ''accounts_stats_batch'', py ''posts_stats_batch''}
   \<and> normalize_stats_map (stats_by_url empty_batch) = []
   \<and> enqueue_parser_event \<lparr>maxsize = 200, pending = []\<rparr> (Event empty_batch)
       = ((False, ''empty_stats''), \<lparr>maxsize = 200, pending = []\<rparr>)"
proof -
  have a: "strip (event_type empty_batch) \<in> {py ''accounts_stats_batch'', py ''posts_stats_batch''}"
    by (simp add: empty_batch_def strip_plain)
  have b: "normalize_stats_map (stats_by_url empty_batch) = []"
    by (simp add: empty_batch_def normalize_stats_map_def)
  from empty_stats_rejected[OF a b, of "\<lparr>maxsize = 200, pending = []\<rparr>"] a b show ?thesis
    by blast
qed




subsection \<open>The supervisor\<close>







text \<open>
  C10. For every text \<open>s\<close>, \<^verbatim>\<open>normalize_account\<close> returns the empty text exactly when
  \<open>s\<close> strips to the empty text, and otherwise a text that begins with
  \<^verbatim>\<open>http://\<close> or \<^verbatim>\<open>https://\<close>; and it is idempotent.
\<close>

theorem normalize_account_canonical:
  "(normalize_account s = [] \<longleftrightarrow> strip s = [])
   \<and> (strip s \<noteq> [] \<longrightarrow>
        startswith (normalize_account s) (py ''http://'')
        \<or> startswith (normalize_account s) (py ''https://''))
   \<and> normalize_account (normalize_account s) = normalize_account s"
  using normalize_account_shape[of s] normalize_account_idem[of s] by blast

theorem normalize_account_canonical_witness:
  "strip (py '' @user '') \<noteq> []
   \<and> normalize_account (py '' @user '') = (py ''https://www.threads.com/@user'')
   \<and> (startswith (normalize_account (py '' @user '')) (py ''http://'')
        \<or> startswith (normalize_account (py '' @user '')) (py ''https://''))
   \<and> normalize_account (normalize_account (py '' @user '')) = normalize_account (py '' @user '')"
proof -
  have a: "strip (py '' @user '') = py ''@user''"
    by (simp add: strip_def is_space_def py_def)
  have b: "normalize_account (py '' @user '') = py ''https://www.threads.com/@user''"
    unfolding normalize_account_def a by (simp add: startswith_def py_def)
  have c: "py ''@user'' \<noteq> []"
    by (simp add: py_def)
  from normalize_account_canonical[of "py '' @user ''"] a b c show ?thesis by simp
qed

subsection \<open>The order of a normalized timeline\<close>

text \<open>
  X1. A normalized timeline is ordered by time, from the earliest instant on, every
  timestamp text of it parses, and no two of its points have the same timestamp text.
  Two points may still stand at the same instant, when their texts give it at different
  offsets.
\<close>

theorem normalize_timeline_ordered:
  "sorted (map order_key (normalize_timeline xs))
   \<and> distinct (map ts_utc (normalize_timeline xs))
   \<and> list_all (\<lambda>p. parse_ts (ts_utc p) \<noteq> None) (normalize_timeline xs)"
proof -
  let ?s = "sort_key entry_instant (fill_bucket [] xs)"
  have w: "well_keyed ?s"
    using fill_bucket_well_keyed[OF well_keyed_Nil, of xs] by (simp add: well_keyed_def)
  have "map ts_utc (map snd ?s) = map fst ?s"
    using w by (auto simp: well_keyed_def)
  then have "distinct (map ts_utc (normalize_timeline xs))"
    using bucket_distinct_sorted[of xs] by (simp only: normalize_timeline_bucket)
  moreover have "sorted (map order_key (normalize_timeline xs))"
    by (simp only: normalize_timeline_def sorted_sort_key)
  moreover have "list_all (\<lambda>p. parse_ts (ts_utc p) \<noteq> None) (normalize_timeline xs)"
    using w by (auto simp: normalize_timeline_bucket well_keyed_def list_all_iff)
  ultimately show ?thesis by blast
qed

end
